theory Spec2Isabelle
  imports Main "HOL-Library.Char_ord" "HOL-Library.List_Lexorder"
begin

section \<open>JavaScript strings and numbers\<close>




text \<open>
  \<open>split_js c s\<close> is \<open>s.split(c)\<close> for a one-character separator: the pieces between
  the separators, an empty piece at either end included, so the result is never empty.
\<close>

fun split_js :: "char \<Rightarrow> string \<Rightarrow> string list" where
  "split_js c [] = [[]]"
| "split_js c (x # xs) =
     (if x = c then [] # split_js c xs
      else (case split_js c xs of
              [] \<Rightarrow> [[x]]
            | w # ws \<Rightarrow> (x # w) # ws))"












section \<open>The background worker: the object store and the TSV format\<close>

text \<open>
  The object store \<open>VisitedLinks\<close> has the key path \<open>url\<close>: it holds at most one
  record per URL, and \<open>getAll\<close> returns the records in ascending key order. It is
  modelled as the list of its records in that order; \<open>store_put\<close> is \<open>store.put\<close>,
  which overwrites the record of an existing key.
\<close>

type_synonym visit_record = "string \<times> int"
type_synonym object_store = "visit_record list"

fun store_put :: "string \<Rightarrow> int \<Rightarrow> object_store \<Rightarrow> object_store" where
  "store_put u t [] = [(u, t)]"
| "store_put u t ((k, v) # rs) =
     (if u = k then (u, t) # rs
      else if u < k then (u, t) # (k, v) # rs
      else (k, v) # store_put u t rs)"


















section \<open>The background worker: import progress, flags and messages\<close>

text \<open>
  The values \<open>chrome.storage.local\<close> holds under the keys \<open>historyImported\<close> and
  \<open>lastImportTime\<close>: a key that was never set reads as \<open>undefined\<close>. \<open>truthy\<close> is
  JavaScript's conversion to a boolean, which \<open>!x\<close> and \<open>x || null\<close> apply.
\<close>

datatype js_value = Undefined | Null | JBool bool | JNum int

fun truthy :: "js_value \<Rightarrow> bool" where
  "truthy Undefined = False"
| "truthy Null = False"
| "truthy (JBool b) = b"
| "truthy (JNum n) = (n \<noteq> 0)"

text \<open>
  \<open>importProgress\<close>, the singleton of the worker; its field \<open>imported\<close> is named
  \<open>progress_imported\<close> here, apart from the counter of the TSV import.
\<close>

record import_progress =
  inProgress :: bool
  total :: nat
  progress_imported :: nat

text \<open>
  The worker: the object store and the two storage keys are durable, \<open>importProgress\<close>
  lives as long as the worker process.
\<close>

record worker =
  store :: object_store
  historyImported :: js_value
  lastImportTime :: js_value
  importProgress :: import_progress

definition worker_startup :: "worker \<Rightarrow> worker" where
  "worker_startup w = w\<lparr>importProgress := \<lparr>inProgress = False, total = 0, progress_imported = 0\<rparr>\<rparr>"

text \<open>
  The environment of one run of \<open>importHistoryToDB\<close>: what \<open>chrome.history.search\<close>
  returns (the URLs of the items, or \<open>None\<close> when it rejects), whether \<open>addUrlToDB\<close>
  succeeds for the item of a given index, the time \<open>Date.now()\<close> gives it, whether
  \<open>chrome.storage.local.set\<close> succeeds, and the time of completion.
\<close>

record import_env =
  search_result :: "string list option"
  put_ok :: "nat \<Rightarrow> bool"
  put_time :: "nat \<Rightarrow> int"
  flags_ok :: bool
  finish_time :: int

definition set_progress :: "(import_progress \<Rightarrow> import_progress) \<Rightarrow> worker \<Rightarrow> worker" where
  "set_progress f w = w\<lparr>importProgress := f (importProgress w)\<rparr>"

text \<open>
  \<open>import_start\<close>: \<open>importHistoryToDB\<close> up to its first suspension, the \<open>await\<close> of
  the history search. \<open>import_found\<close>: the assignment of \<open>total\<close> when the search has
  returned.
\<close>

definition import_start :: "worker \<Rightarrow> worker" where
  "import_start w = set_progress (\<lambda>p. p\<lparr>inProgress := True, progress_imported := 0\<rparr>) w"

definition import_found :: "string list \<Rightarrow> worker \<Rightarrow> worker" where
  "import_found historyItems w = set_progress (\<lambda>p. p\<lparr>total := length historyItems\<rparr>) w"

text \<open>
  One batch: the items \<open>i\<close> to \<open>i + batchSize\<close> are put, a failed put is logged and
  skipped; when all have settled, \<open>imported\<close> becomes \<open>min (i + batchSize) length\<close>.
\<close>

definition batchSize :: nat where
  "batchSize = 100"

definition addUrlToDB :: "import_env \<Rightarrow> string list \<Rightarrow> worker \<Rightarrow> nat \<Rightarrow> worker" where
  "addUrlToDB env historyItems w k =
     (if put_ok env k then w\<lparr>store := store_put (historyItems ! k) (put_time env k) (store w)\<rparr> else w)"

definition import_batch :: "import_env \<Rightarrow> string list \<Rightarrow> nat \<Rightarrow> worker \<Rightarrow> worker" where
  "import_batch env historyItems i w =
     set_progress (\<lambda>p. p\<lparr>progress_imported := min (i + batchSize) (length historyItems)\<rparr>)
       (foldl (addUrlToDB env historyItems) w [i ..< min (i + batchSize) (length historyItems)])"

text \<open>
  The loop over the batches: the list of the worker's states after each batch, that is
  at each later suspension of the run.
\<close>

function import_batches :: "import_env \<Rightarrow> string list \<Rightarrow> nat \<Rightarrow> worker \<Rightarrow> worker list" where
  "import_batches env historyItems i w =
     (if i < length historyItems
      then import_batch env historyItems i w #
           import_batches env historyItems (i + batchSize) (import_batch env historyItems i w)
      else [])"
  by pat_completeness auto
termination
  by (relation "measure (\<lambda>(env, historyItems, i, w). length historyItems - i)")
     (auto simp: batchSize_def)

declare import_batches.simps [simp del]

text \<open>
  \<open>importHistoryToDB env w\<close>: the states of the worker at the successive suspensions
  of the run (where a \<open>getImportProgress\<close> request can be served), the last one being the
  state the run ends in, and whether the run completed (\<open>True\<close>) or threw.
\<close>

definition import_finish :: "import_env \<Rightarrow> worker \<Rightarrow> worker" where
  "import_finish env w =
     set_progress (\<lambda>p. p\<lparr>inProgress := False\<rparr>)
       (w\<lparr>historyImported := JBool True, lastImportTime := JNum (finish_time env)\<rparr>)"

definition import_failed :: "worker \<Rightarrow> worker" where
  "import_failed w = set_progress (\<lambda>p. p\<lparr>inProgress := False\<rparr>) w"

definition importHistoryToDB :: "import_env \<Rightarrow> worker \<Rightarrow> worker list \<times> bool" where
  "importHistoryToDB env w =
     (let w0 = import_start w in
      case search_result env of
        None \<Rightarrow> ([w0, import_failed w0], False)
      | Some historyItems \<Rightarrow>
          let w1 = import_found historyItems w0;
              after = import_batches env historyItems 0 w1;
              w2 = last (w1 # after)
          in if flags_ok env then (w0 # w1 # after @ [import_finish env w2], True)
             else (w0 # w1 # after @ [import_failed w2], False))"

text \<open>
  The message handlers. A request that fails carries the error's message, which the
  environment gives: \<open>None\<close> stands for an operation that succeeds.
\<close>

datatype response =
    Success
  | ErrorResponse string
  | StatsResponse nat js_value
  | ProgressResponse import_progress


text \<open>
  \<open>importHistory\<close>: the handler answers at once when an import is running; otherwise
  it starts \<open>importHistoryToDB\<close> and answers when that has settled. The result is the
  answer given at once, if any, and the worker when the handler returns.
\<close>

definition onMessage_importHistory :: "worker \<Rightarrow> response option \<times> worker" where
  "onMessage_importHistory w =
     (if inProgress (importProgress w) then (Some (ErrorResponse ''Import already in progress''), w)
      else (None, import_start w))"

definition clearAllUrls :: "string option \<Rightarrow> worker \<Rightarrow> string + worker" where
  "clearAllUrls failure w = (case failure of Some msg \<Rightarrow> Inl msg | None \<Rightarrow> Inr (w\<lparr>store := []\<rparr>))"

definition getUrlCount :: "string option \<Rightarrow> worker \<Rightarrow> string + nat" where
  "getUrlCount failure w = (case failure of Some msg \<Rightarrow> Inl msg | None \<Rightarrow> Inr (length (store w)))"

definition onMessage_clearHistory :: "string option \<Rightarrow> string option \<Rightarrow> worker \<Rightarrow> response \<times> worker" where
  "onMessage_clearHistory clear_failure set_failure w =
     (case clearAllUrls clear_failure w of
        Inl msg \<Rightarrow> (ErrorResponse msg, w)
      | Inr w1 \<Rightarrow>
          (case set_failure of
             Some msg \<Rightarrow> (ErrorResponse msg, w1)
           | None \<Rightarrow> (Success, w1\<lparr>historyImported := JBool False, lastImportTime := Null\<rparr>)))"

definition onMessage_getStats :: "string option \<Rightarrow> worker \<Rightarrow> response" where
  "onMessage_getStats count_failure w =
     (case getUrlCount count_failure w of
        Inl msg \<Rightarrow> ErrorResponse msg
      | Inr count \<Rightarrow>
          StatsResponse count (if truthy (lastImportTime w) then lastImportTime w else Null))"

text \<open>
  \<open>initialize\<close>, run when the worker starts: after \<open>initDB\<close> it reads
  \<open>historyImported\<close> and runs the import when the flag is not truthy. An error of
  \<open>initDB\<close>, of the read of the flag (\<open>init_failure\<close>) or of the import is logged and
  swallowed. The result is the list of states at the suspensions, as for
  \<open>importHistoryToDB\<close>.
\<close>

definition initialize :: "string option \<Rightarrow> import_env \<Rightarrow> worker \<Rightarrow> worker list" where
  "initialize init_failure env w =
     (case init_failure of
        Some msg \<Rightarrow> [w]
      | None \<Rightarrow> if \<not> truthy (historyImported w) then fst (importHistoryToDB env w) else [w])"

section \<open>The background worker: opening the database\<close>









section \<open>The content script: the cache and the queries\<close>

text \<open>
  \<open>normalizeUrl\<close>. The URL parser of the platform is a parameter: \<open>url_href url\<close> is
  \<open>new URL(url).href\<close>, or \<open>None\<close> when the constructor throws.
\<close>

definition normalizeUrl :: "(string \<Rightarrow> string option) \<Rightarrow> string \<Rightarrow> string" where
  "normalizeUrl url_href url = (case url_href url of Some h \<Rightarrow> h | None \<Rightarrow> url)"

text \<open>
  \<open>new_Set xs\<close> is \<open>[...new Set(xs)]\<close>: the elements are inserted in order, one that
  is in the set already is skipped, and the set lists them in the order of insertion.
\<close>

definition new_Set :: "'a list \<Rightarrow> 'a list" where
  "new_Set xs = foldl (\<lambda>acc x. if x \<in> set acc then acc else acc @ [x]) [] xs"

text \<open>
  A message sent to the background worker and not answered yet: \<open>CheckUrl p url\<close> is
  the \<open>checkUrl\<close> request whose callback resolves promise \<open>p\<close>; \<open>CheckUrls p unique
  uncached\<close> is the \<open>checkUrls\<close> request for the URLs \<open>uncached\<close>, its callback
  holding on to \<open>unique\<close>, the \<open>uniqueUrls\<close> of the call.
\<close>

datatype message =
    CheckUrl nat string
  | CheckUrls nat "string list" "string list"

text \<open>
  The state of one document session: the two maps of the script, the promises that
  have resolved with their values (\<open>settled\<close> for those of \<open>checkUrlVisited\<close>,
  \<open>batch_settled\<close> for those of \<open>checkUrlsBatch\<close>), the messages in flight and the next
  unused promise number.
\<close>

record session =
  urlCache :: "string \<rightharpoonup> bool"
  pendingChecks :: "string \<rightharpoonup> nat"
  settled :: "nat \<rightharpoonup> bool"
  batch_settled :: "nat \<rightharpoonup> (string \<times> bool) list"
  in_flight :: "message list"
  next_id :: nat

definition session_init :: session where
  "session_init = \<lparr>urlCache = Map.empty, pendingChecks = Map.empty, settled = Map.empty,
                   batch_settled = Map.empty, in_flight = [], next_id = 0\<rparr>"

text \<open>
  What the platform does at a call of \<open>chrome.runtime.sendMessage\<close>:
  \<open>ContextInvalidated\<close> when \<open>chrome.runtime?.id\<close> is missing, \<open>SendThrows\<close> when
  the call throws, \<open>SendOk\<close> when the message is sent.
\<close>

datatype send_env = ContextInvalidated | SendThrows | SendOk

text \<open>
  What an \<open>async\<close> function hands back: a promise that has its value already, or the
  promise of the given number.
\<close>

datatype 'a handle = Immediate 'a | Awaits nat

definition pending_delete :: "string \<Rightarrow> session \<Rightarrow> session" where
  "pending_delete url s = s\<lparr>pendingChecks := (pendingChecks s)(url := None)\<rparr>"

definition pending_set :: "string \<Rightarrow> nat \<Rightarrow> session \<Rightarrow> session" where
  "pending_set url p s = s\<lparr>pendingChecks := (pendingChecks s)(url \<mapsto> p)\<rparr>"

definition cache_set :: "string \<Rightarrow> bool \<Rightarrow> session \<Rightarrow> session" where
  "cache_set url isVisited s = s\<lparr>urlCache := (urlCache s)(url \<mapsto> isVisited)\<rparr>"

definition resolve :: "nat \<Rightarrow> bool \<Rightarrow> session \<Rightarrow> session" where
  "resolve p v s = s\<lparr>settled := (settled s)(p \<mapsto> v)\<rparr>"

definition send :: "message \<Rightarrow> session \<Rightarrow> session" where
  "send m s = s\<lparr>in_flight := in_flight s @ [m]\<rparr>"

definition answered :: "message \<Rightarrow> session \<Rightarrow> session" where
  "answered m s = s\<lparr>in_flight := remove1 m (in_flight s)\<rparr>"

definition new_promise :: "session \<Rightarrow> session" where
  "new_promise s = s\<lparr>next_id := next_id s + 1\<rparr>"

text \<open>
  \<open>checkUrlVisited\<close>. The executor of the new promise runs first, in the call itself:
  on a missing context or a throwing send it deletes the pending entry and resolves the
  promise to \<open>false\<close>. Then, after the executor, the call stores the promise in
  \<open>pendingChecks\<close>.
\<close>

definition checkUrlVisited ::
  "(string \<Rightarrow> string option) \<Rightarrow> send_env \<Rightarrow> string \<Rightarrow> session \<Rightarrow> bool handle \<times> session" where
  "checkUrlVisited url_href env url s =
     (let normalizedUrl = normalizeUrl url_href url in
      case urlCache s normalizedUrl of
        Some v \<Rightarrow> (Immediate v, s)
      | None \<Rightarrow>
          (case pendingChecks s normalizedUrl of
             Some p \<Rightarrow> (Awaits p, s)
           | None \<Rightarrow>
               let p = next_id s;
                   s1 = new_promise s;
                   s2 = (case env of
                           ContextInvalidated \<Rightarrow> resolve p False (pending_delete normalizedUrl s1)
                         | SendThrows \<Rightarrow> resolve p False (pending_delete normalizedUrl s1)
                         | SendOk \<Rightarrow> send (CheckUrl p normalizedUrl) s1)
               in (Awaits p, pending_set normalizedUrl p s2)))"

text \<open>
  The callback of a \<open>checkUrl\<close> message. The answer is \<open>chrome.runtime.lastError\<close>, or
  a response whose \<open>isVisited\<close> may be missing (\<open>response?.isVisited || false\<close>).
\<close>

datatype reply = LastError | Reply "bool option"

definition checkUrl_callback :: "nat \<Rightarrow> string \<Rightarrow> reply \<Rightarrow> session \<Rightarrow> session" where
  "checkUrl_callback p normalizedUrl r s =
     (case r of
        LastError \<Rightarrow> resolve p False (pending_delete normalizedUrl s)
      | Reply v \<Rightarrow>
          let isVisited = (case v of Some b \<Rightarrow> b | None \<Rightarrow> False)
          in resolve p isVisited (pending_delete normalizedUrl (cache_set normalizedUrl isVisited s)))"

text \<open>
  \<open>checkUrlsBatch\<close>. \<open>cache_get\<close> is \<open>urlCache.get(url) || false\<close>; where the source
  reads the cache without the default, every URL read is cached.
\<close>

definition cache_get :: "session \<Rightarrow> string \<Rightarrow> bool" where
  "cache_get s url = (case urlCache s url of Some v \<Rightarrow> v | None \<Rightarrow> False)"

definition all_false :: "string list \<Rightarrow> (string \<times> bool) list" where
  "all_false uniqueUrls = map (\<lambda>url. (url, False)) uniqueUrls"

definition uniqueUrls_of :: "(string \<Rightarrow> string option) \<Rightarrow> string list \<Rightarrow> string list" where
  "uniqueUrls_of url_href urls = new_Set (map (normalizeUrl url_href) urls)"

definition uncachedUrls_of :: "session \<Rightarrow> string list \<Rightarrow> string list" where
  "uncachedUrls_of s uniqueUrls = filter (\<lambda>url. urlCache s url = None) uniqueUrls"

definition checkUrlsBatch ::
  "(string \<Rightarrow> string option) \<Rightarrow> send_env \<Rightarrow> string list \<Rightarrow> session \<Rightarrow>
     (string \<times> bool) list handle \<times> session" where
  "checkUrlsBatch url_href env urls s =
     (let uniqueUrls = uniqueUrls_of url_href urls;
          uncachedUrls = uncachedUrls_of s uniqueUrls
      in if uncachedUrls = [] then (Immediate (map (\<lambda>url. (url, cache_get s url)) uniqueUrls), s)
         else (case env of
                 ContextInvalidated \<Rightarrow> (Immediate (all_false uniqueUrls), s)
               | SendThrows \<Rightarrow> (Immediate (all_false uniqueUrls), s)
               | SendOk \<Rightarrow>
                   (Awaits (next_id s),
                    send (CheckUrls (next_id s) uniqueUrls uncachedUrls) (new_promise s))))"

datatype batch_reply = BatchLastError | BatchReply "(string \<times> bool) list option"

definition checkUrls_callback ::
  "string list \<Rightarrow> batch_reply \<Rightarrow> session \<Rightarrow> (string \<times> bool) list \<times> session" where
  "checkUrls_callback uniqueUrls r s =
     (case r of
        BatchLastError \<Rightarrow> (all_false uniqueUrls, s)
      | BatchReply results \<Rightarrow>
          let s1 = (case results of
                      None \<Rightarrow> s
                    | Some rs \<Rightarrow> foldl (\<lambda>s' entry. cache_set (fst entry) (snd entry) s') s rs)
          in (map (\<lambda>url. (url, cache_get s1 url)) uniqueUrls, s1))"

text \<open>
  \<open>markUrlAsVisited\<close>, as far as the cache goes: it also marks the elements of the
  document, which no claim below is about.
\<close>

definition markUrlAsVisited :: "(string \<Rightarrow> string option) \<Rightarrow> string \<Rightarrow> session \<Rightarrow> session" where
  "markUrlAsVisited url_href url s = cache_set (normalizeUrl url_href url) True s"

text \<open>
  The \<open>checkUrls\<close> handler of the background worker answers a request with one entry
  per requested URL: whether the store has a record of it, \<open>false\<close> where the lookup
  fails (\<open>lookup_ok url\<close> is the environment).
\<close>

definition checkUrlInDB :: "object_store \<Rightarrow> string \<Rightarrow> bool" where
  "checkUrlInDB st url = (map_of st url \<noteq> None)"

definition onMessage_checkUrls :: "(string \<Rightarrow> bool) \<Rightarrow> object_store \<Rightarrow> string list \<Rightarrow> (string \<times> bool) list" where
  "onMessage_checkUrls lookup_ok st urls =
     map (\<lambda>url. (url, if lookup_ok url then checkUrlInDB st url else False)) urls"

text \<open>
  The session as a machine: calls of the three entry points and answers of the
  background worker, in any order. An answer is delivered to a message in flight only;
  \<open>find_CheckUrl p\<close> and \<open>find_CheckUrls p\<close> look it up by its promise.
\<close>

datatype event =
    CallCheckOne send_env string
  | CallCheckMany send_env "string list"
  | CallMarkVisited string
  | AnswerCheckOne nat reply
  | AnswerCheckMany nat batch_reply

fun find_CheckUrl :: "nat \<Rightarrow> message list \<Rightarrow> string option" where
  "find_CheckUrl p [] = None"
| "find_CheckUrl p (CheckUrl q url # ms) = (if q = p then Some url else find_CheckUrl p ms)"
| "find_CheckUrl p (CheckUrls q unique uncached # ms) = find_CheckUrl p ms"

fun find_CheckUrls :: "nat \<Rightarrow> message list \<Rightarrow> (string list \<times> string list) option" where
  "find_CheckUrls p [] = None"
| "find_CheckUrls p (CheckUrl q url # ms) = find_CheckUrls p ms"
| "find_CheckUrls p (CheckUrls q unique uncached # ms) =
     (if q = p then Some (unique, uncached) else find_CheckUrls p ms)"

definition step :: "(string \<Rightarrow> string option) \<Rightarrow> session \<Rightarrow> event \<Rightarrow> session" where
  "step url_href s ev =
     (case ev of
        CallCheckOne env url \<Rightarrow> snd (checkUrlVisited url_href env url s)
      | CallCheckMany env urls \<Rightarrow> snd (checkUrlsBatch url_href env urls s)
      | CallMarkVisited url \<Rightarrow> markUrlAsVisited url_href url s
      | AnswerCheckOne p r \<Rightarrow>
          (case find_CheckUrl p (in_flight s) of
             None \<Rightarrow> s
           | Some url \<Rightarrow> checkUrl_callback p url r (answered (CheckUrl p url) s))
      | AnswerCheckMany p r \<Rightarrow>
          (case find_CheckUrls p (in_flight s) of
             None \<Rightarrow> s
           | Some (unique, uncached) \<Rightarrow>
               (let (results, s1) = checkUrls_callback unique r (answered (CheckUrls p unique uncached) s)
                in s1\<lparr>batch_settled := (batch_settled s1)(p \<mapsto> results)\<rparr>)))"

definition run :: "(string \<Rightarrow> string option) \<Rightarrow> event list \<Rightarrow> session" where
  "run url_href evs = foldl (step url_href) session_init evs"

text \<open>
  The store queries for a URL that are outstanding: the messages in flight that ask
  about it, and among them those \<open>checkUrlVisited\<close> sent.
\<close>

fun asks_about :: "string \<Rightarrow> message \<Rightarrow> bool" where
  "asks_about url (CheckUrl p u) = (u = url)"
| "asks_about url (CheckUrls p unique uncached) = (url \<in> set uncached)"

fun single_about :: "string \<Rightarrow> message \<Rightarrow> bool" where
  "single_about url (CheckUrl p u) = (u = url)"
| "single_about url (CheckUrls p unique uncached) = False"

definition outstanding :: "string \<Rightarrow> session \<Rightarrow> nat" where
  "outstanding url s = length (filter (asks_about url) (in_flight s))"

definition outstanding_single :: "string \<Rightarrow> session \<Rightarrow> nat" where
  "outstanding_single url s = length (filter (single_about url) (in_flight s))"

text \<open>
  What holds of the messages in flight in every state the session reaches: their
  promise numbers are distinct and in use, and a \<open>checkUrl\<close> message for a URL is the
  one \<open>pendingChecks\<close> names for it.
\<close>

fun msg_id :: "message \<Rightarrow> nat" where
  "msg_id (CheckUrl p u) = p"
| "msg_id (CheckUrls p unique uncached) = p"

fun msg_pending :: "session \<Rightarrow> message \<Rightarrow> bool" where
  "msg_pending s (CheckUrl p u) = (pendingChecks s u = Some p)"
| "msg_pending s (CheckUrls p unique uncached) = True"

definition session_inv :: "session \<Rightarrow> bool" where
  "session_inv s =
     (distinct (map msg_id (in_flight s)) \<and>
      list_all (\<lambda>m. msg_id m < next_id s \<and> msg_pending s m) (in_flight s))"

section \<open>The content script: scanning the links\<close>







section \<open>Proofs: strings, numbers and the TSV format\<close>

subsection \<open>Splitting, digits and \<open>parseInt\<close>\<close>

lemma split_js_nonempty: "split_js c s \<noteq> []"
  by (induction s) (auto split: list.splits)


















subsection \<open>Escaping and unescaping\<close>






subsection \<open>The lines of an export\<close>






















subsection \<open>The import loop\<close>





lemma store_put_keys: "set (map fst (store_put u t st)) = insert u (set (map fst st))"
  by (induction u t st rule: store_put.induct) auto

lemma store_put_sorted:
  "sorted_wrt (<) (map fst st) \<Longrightarrow> sorted_wrt (<) (map fst (store_put u t st))"
proof (induction st)
  case Nil
  then show ?case by simp
next
  case (Cons r st)
  obtain k v where r: "r = (k, v)" by (cases r)
  have tail: "sorted_wrt (<) (map fst (store_put u t st))" using Cons by simp
  have keys: "\<forall>x \<in> set (map fst st). k < x" using Cons.prems by (simp add: r)
  show ?case
  proof (cases "u = k")
    case True
    then show ?thesis using Cons.prems by (simp add: r)
  next
    case False
    show ?thesis
    proof (cases "u < k")
      case True
      then show ?thesis using Cons.prems False by (auto simp: r)
    next
      case False
      with \<open>u \<noteq> k\<close> have "k < u" by auto
      then show ?thesis
        using \<open>u \<noteq> k\<close> False tail keys store_put_keys[of u t st] by (auto simp: r)
    qed
  qed
qed


subsection \<open>Claims on the text format\<close>







section \<open>Proofs: the bulk import and the message handlers\<close>

lemma set_progress_fields:
  "store (set_progress f w) = store w"
  "historyImported (set_progress f w) = historyImported w"
  "lastImportTime (set_progress f w) = lastImportTime w"
  "importProgress (set_progress f w) = f (importProgress w)"
  by (simp_all add: set_progress_def)

lemma addUrlToDB_progress: "importProgress (addUrlToDB env items w k) = importProgress w"
  by (simp add: addUrlToDB_def)

lemma fold_addUrlToDB_progress:
  "importProgress (foldl (addUrlToDB env items) w ks) = importProgress w"
  by (induction ks arbitrary: w) (simp_all add: addUrlToDB_progress)

lemma import_batch_progress:
  "importProgress (import_batch env items i w) =
     (importProgress w)\<lparr>progress_imported := min (i + batchSize) (length items)\<rparr>"
  by (simp add: import_batch_def set_progress_fields fold_addUrlToDB_progress)

lemma import_batches_progress:
  "s \<in> set (import_batches env items i w) \<Longrightarrow>
     inProgress (importProgress s) = inProgress (importProgress w) \<and>
     total (importProgress s) = total (importProgress w) \<and>
     progress_imported (importProgress s) \<le> length items"
proof (induction env items i w rule: import_batches.induct)
  case (1 env items i w)
  show ?case
  proof (cases "i < length items")
    case False
    then show ?thesis using "1.prems" by (simp add: import_batches.simps)
  next
    case True
    then have "s = import_batch env items i w \<or>
               s \<in> set (import_batches env items (i + batchSize) (import_batch env items i w))"
      using "1.prems" by (subst (asm) import_batches.simps) simp
    then show ?thesis
    proof
      assume "s = import_batch env items i w"
      then show ?thesis by (simp add: import_batch_progress)
    next
      assume "s \<in> set (import_batches env items (i + batchSize) (import_batch env items i w))"
      then show ?thesis using "1.IH"[OF True] by (simp add: import_batch_progress)
    qed
  qed
qed

lemma last_batches_progress:
  "inProgress (importProgress (last (w # import_batches env items i w))) = inProgress (importProgress w) \<and>
   total (importProgress (last (w # import_batches env items i w))) = total (importProgress w) \<and>
   (progress_imported (importProgress w) \<le> length items \<longrightarrow>
      progress_imported (importProgress (last (w # import_batches env items i w))) \<le> length items)"
proof (cases "import_batches env items i w = []")
  case True
  then show ?thesis by simp
next
  case False
  then have "last (w # import_batches env items i w) \<in> set (import_batches env items i w)"
    by simp
  then show ?thesis using import_batches_progress by blast
qed

lemma import_trace:
  assumes "search_result env = Some historyItems"
  shows "\<exists>after final.
           fst (importHistoryToDB env w) =
             import_start w # import_found historyItems (import_start w) # after @ [final] \<and>
           inProgress (importProgress (import_start w)) \<and>
           progress_imported (importProgress (import_start w)) = 0 \<and>
           importProgress (import_found historyItems (import_start w)) =
             \<lparr>inProgress = True, total = length historyItems, progress_imported = 0\<rparr> \<and>
           after = import_batches env historyItems 0 (import_found historyItems (import_start w)) \<and>
           (\<forall>s \<in> set (after @ [final]).
              total (importProgress s) = length historyItems \<and>
              progress_imported (importProgress s) \<le> length historyItems) \<and>
           (\<forall>s \<in> set after. inProgress (importProgress s)) \<and>
           \<not> inProgress (importProgress final)"
proof -
  let ?w0 = "import_start w"
  let ?w1 = "import_found historyItems ?w0"
  let ?after = "import_batches env historyItems 0 ?w1"
  let ?w2 = "last (?w1 # ?after)"
  let ?final = "if flags_ok env then import_finish env ?w2 else import_failed ?w2"
  have p0: "inProgress (importProgress ?w0)" "progress_imported (importProgress ?w0) = 0"
    by (simp_all add: import_start_def set_progress_fields)
  have p1: "importProgress ?w1 = \<lparr>inProgress = True, total = length historyItems, progress_imported = 0\<rparr>"
    by (simp add: import_found_def import_start_def set_progress_fields)
  have tr: "fst (importHistoryToDB env w) = ?w0 # ?w1 # ?after @ [?final]"
    using assms by (simp add: importHistoryToDB_def Let_def)
  have a: "\<forall>s \<in> set ?after. total (importProgress s) = length historyItems \<and>
             progress_imported (importProgress s) \<le> length historyItems \<and>
             inProgress (importProgress s)"
    using import_batches_progress[of _ env historyItems 0 ?w1] p1 by simp
  have l: "total (importProgress ?w2) = length historyItems \<and>
           progress_imported (importProgress ?w2) \<le> length historyItems"
    using last_batches_progress[of ?w1 env historyItems 0] p1 by simp
  have f: "total (importProgress ?final) = length historyItems \<and>
           progress_imported (importProgress ?final) \<le> length historyItems \<and>
           \<not> inProgress (importProgress ?final)"
    using l by (simp add: import_finish_def import_failed_def set_progress_fields)
  show ?thesis
    apply (rule exI[of _ ?after], rule exI[of _ ?final])
    using tr p0 p1 a f by auto
qed




text \<open>
  Claim C6. An \<open>importHistory\<close> request that arrives while \<open>inProgress\<close> is true is
  answered at once with the error ``Import already in progress'', and the worker is
  left as it was: no run is started, \<open>imported\<close> and \<open>total\<close> keep their values.
\<close>

theorem importHistory_rejected_while_running:
  assumes "inProgress (importProgress w)"
  shows "onMessage_importHistory w = (Some (ErrorResponse ''Import already in progress''), w)"
  using assms by (simp add: onMessage_importHistory_def)

text \<open>The rejection during a run that has imported 100 of 250 items.\<close>

theorem importHistory_rejected_while_running_witness:
  "onMessage_importHistory
     \<lparr>store = [], historyImported = Undefined, lastImportTime = Undefined,
      importProgress = \<lparr>inProgress = True, total = 250, progress_imported = 100\<rparr>\<rparr> =
   (Some (ErrorResponse ''Import already in progress''),
    \<lparr>store = [], historyImported = Undefined, lastImportTime = Undefined,
      importProgress = \<lparr>inProgress = True, total = 250, progress_imported = 100\<rparr>\<rparr>)"
  using importHistory_rejected_while_running
    [of "\<lparr>store = [], historyImported = Undefined, lastImportTime = Undefined,
          importProgress = \<lparr>inProgress = True, total = 250, progress_imported = 100\<rparr>\<rparr>"]
  by simp

text \<open>
  At every suspension of a run before its end the request is rejected so, and the state
  of the run is untouched.
\<close>

lemma import_running_states:
  assumes "search_result env = Some historyItems"
  shows "\<forall>s \<in> set (butlast (fst (importHistoryToDB env w))).
           fst (onMessage_importHistory s) = Some (ErrorResponse ''Import already in progress'') \<and>
           snd (onMessage_importHistory s) = s"
proof -
  from import_trace [OF assms, of w]
  obtain after final where
    t: "fst (importHistoryToDB env w) =
          import_start w # import_found historyItems (import_start w) # after @ [final]"
    and p0: "inProgress (importProgress (import_start w))"
    and p1: "importProgress (import_found historyItems (import_start w)) =
             \<lparr>inProgress = True, total = length historyItems, progress_imported = 0\<rparr>"
    and a: "\<forall>s \<in> set after. inProgress (importProgress s)"
    by blast
  have "butlast (fst (importHistoryToDB env w)) =
          import_start w # import_found historyItems (import_start w) # after"
    by (simp only: t) (simp add: butlast_append)
  then show ?thesis using p0 p1 a by (auto simp: onMessage_importHistory_def)
qed

text \<open>
  Claim C10. When the \<open>clearHistory\<close> request succeeds, the store is empty,
  \<open>historyImported\<close> is false and \<open>lastImportTime\<close> is null; a \<open>getStats\<close> request that
  follows reports the count 0 and no last import time; and \<open>initialize\<close> at the next
  start of the worker, the store opening, runs the bulk import.
\<close>

theorem clearHistory_resets_flags:
  assumes "onMessage_clearHistory clear_failure set_failure w = (Success, w')"
  shows "store w' = [] \<and> historyImported w' = JBool False \<and> lastImportTime w' = Null \<and>
         onMessage_getStats None w' = StatsResponse 0 Null \<and>
         initialize None env (worker_startup w') = fst (importHistoryToDB env (worker_startup w')) \<and>
         hd (initialize None env (worker_startup w')) = import_start (worker_startup w') \<and>
         inProgress (importProgress (hd (initialize None env (worker_startup w'))))"
proof -
  have w': "w' = w\<lparr>store := [], historyImported := JBool False, lastImportTime := Null\<rparr>"
    using assms
    by (auto simp: onMessage_clearHistory_def clearAllUrls_def split: option.splits)
  have hd: "hd (fst (importHistoryToDB env v)) = import_start v" for v
    by (simp add: importHistoryToDB_def Let_def split: option.splits)
  show ?thesis
    by (simp add: w' onMessage_getStats_def getUrlCount_def initialize_def worker_startup_def hd
          import_start_def set_progress_def)
qed

text \<open>Clearing a store of two records after a completed import.\<close>

theorem clearHistory_resets_flags_witness:
  "onMessage_clearHistory None None
     \<lparr>store = [(''https://a/'', 1000), (''https://b/'', 1000)], historyImported = JBool True,
      lastImportTime = JNum 2000,
      importProgress = \<lparr>inProgress = False, total = 2, progress_imported = 2\<rparr>\<rparr> =
     (Success,
      \<lparr>store = [], historyImported = JBool False, lastImportTime = Null,
       importProgress = \<lparr>inProgress = False, total = 2, progress_imported = 2\<rparr>\<rparr>) \<and>
   onMessage_getStats None
     \<lparr>store = [], historyImported = JBool False, lastImportTime = Null,
      importProgress = \<lparr>inProgress = False, total = 2, progress_imported = 2\<rparr>\<rparr> = StatsResponse 0 Null \<and>
   inProgress (importProgress (hd (initialize None
     \<lparr>search_result = Some [''https://a/''], put_ok = (\<lambda>k. True),
      put_time = (\<lambda>k. 5000), flags_ok = True, finish_time = 6000\<rparr>
     (worker_startup
        \<lparr>store = [], historyImported = JBool False, lastImportTime = Null,
         importProgress = \<lparr>inProgress = False, total = 2, progress_imported = 2\<rparr>\<rparr>))))"
proof -
  have c: "onMessage_clearHistory None None
     \<lparr>store = [(''https://a/'', 1000), (''https://b/'', 1000)], historyImported = JBool True,
      lastImportTime = JNum 2000,
      importProgress = \<lparr>inProgress = False, total = 2, progress_imported = 2\<rparr>\<rparr> =
     (Success,
      \<lparr>store = [], historyImported = JBool False, lastImportTime = Null,
       importProgress = \<lparr>inProgress = False, total = 2, progress_imported = 2\<rparr>\<rparr>)"
    by (simp add: onMessage_clearHistory_def clearAllUrls_def)
  show ?thesis
    using c clearHistory_resets_flags [OF c,
      of "\<lparr>search_result = Some [''https://a/''], put_ok = (\<lambda>k. True),
           put_time = (\<lambda>k. 5000), flags_ok = True, finish_time = 6000\<rparr>"]
    by blast
qed

section \<open>Proofs: opening the database\<close>







section \<open>Proofs: the queries of the content script\<close>

lemma session_simps:
  "urlCache (pending_delete u s) = urlCache s"
  "urlCache (pending_set u p s) = urlCache s"
  "urlCache (resolve p v s) = urlCache s"
  "urlCache (send m s) = urlCache s"
  "urlCache (answered m s) = urlCache s"
  "urlCache (new_promise s) = urlCache s"
  "urlCache (cache_set u v s) = (urlCache s)(u \<mapsto> v)"
  "pendingChecks (pending_delete u s) = (pendingChecks s)(u := None)"
  "pendingChecks (pending_set u p s) = (pendingChecks s)(u \<mapsto> p)"
  "pendingChecks (resolve p v s) = pendingChecks s"
  "pendingChecks (send m s) = pendingChecks s"
  "pendingChecks (answered m s) = pendingChecks s"
  "pendingChecks (new_promise s) = pendingChecks s"
  "pendingChecks (cache_set u v s) = pendingChecks s"
  "in_flight (pending_delete u s) = in_flight s"
  "in_flight (pending_set u p s) = in_flight s"
  "in_flight (resolve p v s) = in_flight s"
  "in_flight (send m s) = in_flight s @ [m]"
  "in_flight (answered m s) = remove1 m (in_flight s)"
  "in_flight (new_promise s) = in_flight s"
  "in_flight (cache_set u v s) = in_flight s"
  "next_id (pending_delete u s) = next_id s"
  "next_id (pending_set u p s) = next_id s"
  "next_id (resolve p v s) = next_id s"
  "next_id (send m s) = next_id s"
  "next_id (answered m s) = next_id s"
  "next_id (new_promise s) = next_id s + 1"
  "next_id (cache_set u v s) = next_id s"
  "settled (pending_delete u s) = settled s"
  "settled (pending_set u p s) = settled s"
  "settled (resolve p v s) = (settled s)(p \<mapsto> v)"
  "settled (send m s) = settled s"
  "settled (answered m s) = settled s"
  "settled (new_promise s) = settled s"
  "settled (cache_set u v s) = settled s"
  by (simp_all add: pending_delete_def pending_set_def resolve_def send_def answered_def
        new_promise_def cache_set_def)

lemma checkUrlVisited_cache: "urlCache (snd (checkUrlVisited url_href env url s)) = urlCache s"
  by (simp add: checkUrlVisited_def Let_def session_simps split: option.splits send_env.splits)

lemma checkUrl_callback_LastError:
  "urlCache (checkUrl_callback p u LastError s) = urlCache s \<and>
   settled (checkUrl_callback p u LastError s) p = Some False \<and>
   pendingChecks (checkUrl_callback p u LastError s) u = None"
  by (simp add: checkUrl_callback_def session_simps)

lemma checkUrlVisited_failure:
  assumes "urlCache s (normalizeUrl url_href url) = None"
    and "pendingChecks s (normalizeUrl url_href url) = None"
    and "env \<noteq> SendOk"
  shows "fst (checkUrlVisited url_href env url s) = Awaits (next_id s) \<and>
         settled (snd (checkUrlVisited url_href env url s)) (next_id s) = Some False \<and>
         urlCache (snd (checkUrlVisited url_href env url s)) = urlCache s \<and>
         in_flight (snd (checkUrlVisited url_href env url s)) = in_flight s \<and>
         pendingChecks (snd (checkUrlVisited url_href env url s)) (normalizeUrl url_href url) = Some (next_id s)"
  using assms by (cases env) (simp_all add: checkUrlVisited_def Let_def session_simps)

lemma checkUrlVisited_attaches:
  assumes "urlCache s (normalizeUrl url_href url) = None"
    and "pendingChecks s (normalizeUrl url_href url) = Some p"
  shows "checkUrlVisited url_href env url s = (Awaits p, s)"
  using assms by (simp add: checkUrlVisited_def Let_def)

text \<open>The definitions a concrete session is evaluated with.\<close>

lemmas session_eval =
  run_def step_def checkUrlVisited_def checkUrlsBatch_def checkUrl_callback_def
  checkUrls_callback_def markUrlAsVisited_def session_init_def normalizeUrl_def
  uniqueUrls_of_def uncachedUrls_of_def new_Set_def all_false_def cache_get_def
  pending_delete_def pending_set_def cache_set_def resolve_def send_def answered_def
  new_promise_def outstanding_def outstanding_single_def Let_def

subsection \<open>Failed queries of \<open>checkUrlVisited\<close>\<close>

text \<open>
  Claim C9, evaluated at a send that throws. The promise resolves to \<open>false\<close> and
  nothing is cached, as the claim says; but the executor's \<open>pendingChecks.delete\<close> runs
  before the call's \<open>pendingChecks.set\<close>, so the settled promise stays in
  \<open>pendingChecks\<close>, and a later \<open>checkUrlVisited\<close> for the URL, the platform sound
  again, sends no message and hands back that promise.
\<close>

theorem checkUrlVisited_stale_pending:
  "fst (checkUrlVisited Some SendThrows ''https://a/'' session_init) = Awaits 0 \<and>
   settled (snd (checkUrlVisited Some SendThrows ''https://a/'' session_init)) 0 = Some False \<and>
   urlCache (snd (checkUrlVisited Some SendThrows ''https://a/'' session_init)) ''https://a/'' = None \<and>
   in_flight (snd (checkUrlVisited Some SendThrows ''https://a/'' session_init)) = [] \<and>
   pendingChecks (snd (checkUrlVisited Some SendThrows ''https://a/'' session_init)) ''https://a/'' = Some 0 \<and>
   checkUrlVisited Some SendOk ''https://a/'' (snd (checkUrlVisited Some SendThrows ''https://a/'' session_init)) =
     (Awaits 0, snd (checkUrlVisited Some SendThrows ''https://a/'' session_init))"
proof -
  have n: "normalizeUrl Some ''https://a/'' = ''https://a/''" by (simp add: normalizeUrl_def)
  have c: "urlCache session_init (normalizeUrl Some ''https://a/'') = None"
    and p: "pendingChecks session_init (normalizeUrl Some ''https://a/'') = None"
    and i: "in_flight session_init = []" "next_id session_init = 0" "urlCache session_init = Map.empty"
    by (simp_all add: session_init_def)
  note f = checkUrlVisited_failure [OF c p, of SendThrows]
  have a: "checkUrlVisited Some SendOk ''https://a/'' (snd (checkUrlVisited Some SendThrows ''https://a/'' session_init)) =
     (Awaits 0, snd (checkUrlVisited Some SendThrows ''https://a/'' session_init))"
    using f by (intro checkUrlVisited_attaches) (simp_all add: i n)
  show ?thesis using f a by (simp add: i n)
qed

text \<open>
  After a transport error, which the callback handles, the pending entry is gone and
  the next call sends a fresh query.
\<close>

lemma lastError_then_fresh_query:
  assumes "urlCache s u = None" and "normalizeUrl url_href url = u"
  shows "checkUrlVisited url_href SendOk url (checkUrl_callback p u LastError s) =
           (Awaits (next_id s),
            pending_set u (next_id s)
              (send (CheckUrl (next_id s) u) (new_promise (checkUrl_callback p u LastError s))))"
  using assms
  by (simp add: checkUrlVisited_def Let_def checkUrl_callback_def session_simps)

subsection \<open>The messages in flight\<close>

lemma find_CheckUrl_mem: "find_CheckUrl p ms = Some u \<Longrightarrow> CheckUrl p u \<in> set ms"
  by (induction p ms rule: find_CheckUrl.induct) (auto split: if_splits)

lemma find_CheckUrls_mem:
  "find_CheckUrls p ms = Some (unique, uncached) \<Longrightarrow> CheckUrls p unique uncached \<in> set ms"
  by (induction p ms rule: find_CheckUrls.induct) (auto split: if_splits)

lemma msg_pending_cong:
  "pendingChecks s' = pendingChecks s \<Longrightarrow> msg_pending s' m = msg_pending s m"
  by (cases m) simp_all

lemma msg_pending_upd:
  "msg_pending (s\<lparr>in_flight := a\<rparr>) m = msg_pending s m"
  "msg_pending (s\<lparr>next_id := b\<rparr>) m = msg_pending s m"
  "msg_pending (s\<lparr>urlCache := c\<rparr>) m = msg_pending s m"
  "msg_pending (s\<lparr>settled := d\<rparr>) m = msg_pending s m"
  "msg_pending (s\<lparr>batch_settled := e\<rparr>) m = msg_pending s m"
  by (cases m; simp)+

lemma in_remove1D: "x \<in> set (remove1 y xs) \<Longrightarrow> x \<in> set xs"
  using set_remove1_subset by fastforce

lemma inv_frame:
  assumes "session_inv s" "in_flight s' = in_flight s" "pendingChecks s' = pendingChecks s"
    "next_id s \<le> next_id s'"
  shows "session_inv s'"
  using assms
  by (auto simp: session_inv_def list_all_iff msg_pending_cong[OF assms(3)])

lemma inv_no_message:
  assumes "session_inv s" "pendingChecks s u = None" "m \<in> set (in_flight s)"
  shows "\<not> single_about u m"
  using assms by (cases m) (auto simp: session_inv_def list_all_iff)

lemma inv_pending_other:
  assumes "session_inv s" "pendingChecks s u = None" "m \<in> set (in_flight s)"
  shows "msg_pending (s\<lparr>pendingChecks := (pendingChecks s)(u \<mapsto> p)\<rparr>) m"
  using assms by (cases m) (auto simp: session_inv_def list_all_iff)

lemma inv_new_pending:
  assumes "session_inv s" and "pendingChecks s u = None"
    and pd: "pendingChecks s' = (pendingChecks s)(u \<mapsto> next_id s)"
    and nx: "next_id s' = next_id s + 1"
    and fl: "in_flight s' = in_flight s \<or> in_flight s' = in_flight s @ [CheckUrl (next_id s) u]"
  shows "session_inv s'"
proof -
  have d: "distinct (map msg_id (in_flight s))" using assms(1) by (simp add: session_inv_def)
  have lt: "msg_id m < next_id s" if "m \<in> set (in_flight s)" for m
    using that assms(1) by (simp add: session_inv_def list_all_iff)
  have old: "msg_pending s' m" if "m \<in> set (in_flight s)" for m
  proof -
    have a: "msg_pending (s\<lparr>pendingChecks := (pendingChecks s)(u \<mapsto> next_id s)\<rparr>) m"
      by (rule inv_pending_other[OF assms(1,2) that])
    have b: "pendingChecks s' = pendingChecks (s\<lparr>pendingChecks := (pendingChecks s)(u \<mapsto> next_id s)\<rparr>)"
      by (simp add: pd)
    show ?thesis using a msg_pending_cong[OF b, of m] by blast
  qed
  have new: "msg_pending s' (CheckUrl (next_id s) u)" by (simp add: pd)
  have fresh: "next_id s \<notin> set (map msg_id (in_flight s))"
  proof
    assume "next_id s \<in> set (map msg_id (in_flight s))"
    then obtain x where "x \<in> set (in_flight s)" "msg_id x = next_id s" by auto
    then show False using lt[of x] by simp
  qed
  from fl show ?thesis
  proof
    assume e: "in_flight s' = in_flight s"
    show ?thesis
      using d lt old by (auto simp: session_inv_def list_all_iff e nx less_Suc_eq)
  next
    assume e: "in_flight s' = in_flight s @ [CheckUrl (next_id s) u]"
    show ?thesis
      using d lt old new fresh by (auto simp: session_inv_def list_all_iff e nx less_Suc_eq)
  qed
qed

lemma inv_checkUrlVisited:
  assumes "session_inv s"
  shows "session_inv (snd (checkUrlVisited url_href env url s))"
proof -
  let ?u = "normalizeUrl url_href url"
  show ?thesis
  proof (cases "urlCache s ?u")
    case (Some v)
    then show ?thesis using assms by (simp add: checkUrlVisited_def Let_def)
  next
    case None
    note c = None
    show ?thesis
    proof (cases "pendingChecks s ?u")
      case (Some p)
      then show ?thesis using assms c by (simp add: checkUrlVisited_def Let_def)
    next
      case None
      let ?s' = "snd (checkUrlVisited url_href env url s)"
      have pd: "pendingChecks ?s' = (pendingChecks s)(?u \<mapsto> next_id s)"
        using c None by (cases env) (simp_all add: checkUrlVisited_def Let_def session_simps)
      have nx: "next_id ?s' = next_id s + 1"
        using c None by (cases env) (simp_all add: checkUrlVisited_def Let_def session_simps)
      have fl: "in_flight ?s' = in_flight s \<or> in_flight ?s' = in_flight s @ [CheckUrl (next_id s) ?u]"
        using c None by (cases env) (simp_all add: checkUrlVisited_def Let_def session_simps)
      show ?thesis by (rule inv_new_pending[OF assms None pd nx fl])
    qed
  qed
qed

lemma inv_checkUrlsBatch:
  assumes "session_inv s"
  shows "session_inv (snd (checkUrlsBatch url_href env urls s))"
  using assms
  by (cases env)
     (auto simp: checkUrlsBatch_def Let_def session_inv_def list_all_iff msg_pending_upd
        send_def new_promise_def)

lemma inv_cache_set: "session_inv s \<Longrightarrow> session_inv (cache_set u v s)"
  using inv_frame[of s "cache_set u v s"] by (simp add: cache_set_def)

lemma inv_fold_cache_set:
  "session_inv s \<Longrightarrow> session_inv (foldl (\<lambda>s' entry. cache_set (fst entry) (snd entry) s') s rs)"
  by (induction rs arbitrary: s) (simp_all add: inv_cache_set)

lemma distinct_remove1_ids:
  "distinct (map msg_id ms) \<Longrightarrow> distinct (map msg_id (remove1 m ms))"
  by (auto simp: distinct_map intro: inj_on_diff)

lemma inv_answered:
  assumes "session_inv s"
  shows "session_inv (answered m s)"
proof -
  have d: "distinct (map msg_id (in_flight (answered m s)))"
    using assms distinct_remove1_ids[of "in_flight s" m]
    by (simp add: session_inv_def session_simps)
  have p: "pendingChecks (answered m s) = pendingChecks s" by (simp add: session_simps)
  have a: "msg_id m' < next_id (answered m s) \<and> msg_pending (answered m s) m'"
    if "m' \<in> set (in_flight (answered m s))" for m'
  proof -
    have "m' \<in> set (in_flight s)"
      using that in_remove1D[of m' m "in_flight s"] by (simp add: session_simps)
    then have "msg_id m' < next_id s \<and> msg_pending s m'"
      using assms by (simp add: session_inv_def list_all_iff)
    then show ?thesis using msg_pending_cong[OF p, of m'] by (simp add: session_simps)
  qed
  show ?thesis unfolding session_inv_def list_all_iff using d a by blast
qed

lemma removed_id_gone:
  assumes "distinct (map msg_id ms)" "m \<in> set ms" "m' \<in> set (remove1 m ms)"
  shows "msg_id m' \<noteq> msg_id m"
proof -
  have d: "distinct ms" and inj: "inj_on msg_id (set ms)"
    using assms(1) by (simp_all add: distinct_map)
  have "m' \<in> set ms" "m' \<noteq> m" using assms(3) d by simp_all
  then show ?thesis using inj assms(2) by (auto simp: inj_on_def)
qed

lemma inv_pending_delete_after_answer:
  assumes "session_inv s" "CheckUrl p u \<in> set (in_flight s)"
  shows "session_inv (pending_delete u (answered (CheckUrl p u) s))"
proof -
  let ?s1 = "answered (CheckUrl p u) s"
  have i1: "session_inv ?s1" by (rule inv_answered[OF assms(1)])
  have d: "distinct (map msg_id (in_flight s))" using assms(1) by (simp add: session_inv_def)
  have all: "msg_pending s x" if "x \<in> set (in_flight s)" for x
    using that assms(1) by (simp add: session_inv_def list_all_iff)
  have pu: "pendingChecks s u = Some p" using all[OF assms(2)] by simp
  have ok: "msg_pending (pending_delete u ?s1) m" if m: "m \<in> set (in_flight ?s1)" for m
  proof (cases m)
    case (CheckUrl q v)
    have r: "m \<in> set (remove1 (CheckUrl p u) (in_flight s))"
      using m by (simp add: session_simps)
    have ms: "m \<in> set (in_flight s)" by (rule in_remove1D[OF r])
    have pq: "pendingChecks s v = Some q" using all[OF ms] CheckUrl by simp
    have "msg_id m \<noteq> msg_id (CheckUrl p u)" by (rule removed_id_gone[OF d assms(2) r])
    then have "q \<noteq> p" using CheckUrl by simp
    then have "v \<noteq> u" using pq pu by auto
    then show ?thesis using pq CheckUrl by (simp add: session_simps)
  next
    case (CheckUrls q a b)
    then show ?thesis by simp
  qed
  have e: "in_flight (pending_delete u ?s1) = in_flight ?s1" "next_id (pending_delete u ?s1) = next_id ?s1"
    by (simp_all add: pending_delete_def)
  have d1: "distinct (map msg_id (in_flight ?s1))"
    and l1: "\<forall>m \<in> set (in_flight ?s1). msg_id m < next_id ?s1"
    using i1 by (simp_all add: session_inv_def list_all_iff)
  show ?thesis
    unfolding session_inv_def list_all_iff e using d1 l1 ok by blast
qed

lemma inv_resolve: "session_inv s \<Longrightarrow> session_inv (resolve p v s)"
  using inv_frame[of s "resolve p v s"] by (simp add: resolve_def)

lemma pending_delete_cache_set:
  "pending_delete u (cache_set u' v s) = cache_set u' v (pending_delete u s)"
  by (simp add: pending_delete_def cache_set_def)

lemma inv_checkUrl_callback:
  assumes "session_inv s" "CheckUrl p u \<in> set (in_flight s)"
  shows "session_inv (checkUrl_callback p u r (answered (CheckUrl p u) s))"
  using inv_pending_delete_after_answer[OF assms]
  by (cases r) (simp_all add: checkUrl_callback_def Let_def inv_resolve inv_cache_set pending_delete_cache_set)

lemma inv_checkUrls_callback:
  assumes "session_inv s"
  shows "session_inv (snd (checkUrls_callback unique r s))"
  using assms
  by (cases r) (auto simp: checkUrls_callback_def Let_def inv_fold_cache_set split: option.splits)

lemma inv_step: "session_inv s \<Longrightarrow> session_inv (step url_href s ev)"
proof (cases ev)
  case (CallCheckOne env url)
  assume "session_inv s"
  then show ?thesis using CallCheckOne by (simp add: step_def inv_checkUrlVisited)
next
  case (CallCheckMany env urls)
  assume "session_inv s"
  then show ?thesis using CallCheckMany by (simp add: step_def inv_checkUrlsBatch)
next
  case (CallMarkVisited url)
  assume "session_inv s"
  then show ?thesis using CallMarkVisited by (simp add: step_def markUrlAsVisited_def inv_cache_set)
next
  case (AnswerCheckOne p r)
  assume i: "session_inv s"
  show ?thesis
  proof (cases "find_CheckUrl p (in_flight s)")
    case None
    then show ?thesis using i AnswerCheckOne by (simp add: step_def)
  next
    case (Some u)
    then show ?thesis
      using i AnswerCheckOne inv_checkUrl_callback[OF i find_CheckUrl_mem[OF Some]]
      by (simp add: step_def)
  qed
next
  case (AnswerCheckMany p r)
  assume i: "session_inv s"
  show ?thesis
  proof (cases "find_CheckUrls p (in_flight s)")
    case None
    then show ?thesis using i AnswerCheckMany by (simp add: step_def)
  next
    case (Some uu)
    obtain unique uncached where uu: "uu = (unique, uncached)" by (cases uu)
    let ?s1 = "answered (CheckUrls p unique uncached) s"
    obtain results s2 where cb: "checkUrls_callback unique r ?s1 = (results, s2)"
      by (cases "checkUrls_callback unique r ?s1")
    have "session_inv s2"
      using inv_checkUrls_callback[OF inv_answered[OF i], of unique r "CheckUrls p unique uncached"] cb
      by simp
    then have "session_inv (s2\<lparr>batch_settled := (batch_settled s2)(p \<mapsto> results)\<rparr>)"
      using inv_frame[of s2 "s2\<lparr>batch_settled := (batch_settled s2)(p \<mapsto> results)\<rparr>"] by simp
    then show ?thesis using AnswerCheckMany Some uu cb by (simp add: step_def)
  qed
qed

lemma inv_run: "session_inv (run url_href evs)"
proof -
  have "session_inv s \<Longrightarrow> session_inv (foldl (step url_href) s evs)" for s
    by (induction evs arbitrary: s) (simp_all add: inv_step)
  moreover have "session_inv session_init" by (simp add: session_inv_def session_init_def)
  ultimately show ?thesis by (simp add: run_def)
qed

lemma single_id:
  "msg_pending s m \<Longrightarrow> single_about u m \<Longrightarrow> pendingChecks s u = Some (msg_id m)"
  by (cases m) auto

lemma single_ids:
  assumes "list_all (\<lambda>m. msg_pending s m) ms" "distinct (map msg_id ms)"
  shows "length (filter (single_about u) ms) \<le> 1"
proof (cases "filter (single_about u) ms")
  case Nil
  then show ?thesis by simp
next
  case (Cons a as)
  have d: "distinct (map msg_id (filter (single_about u) ms))"
    using assms(2) by (simp add: distinct_map_filter)
  have e: "pendingChecks s u = Some (msg_id m)" if "m \<in> set (filter (single_about u) ms)" for m
    using that assms(1) single_id[of s m u] by (auto simp: list_all_iff)
  have "as = []"
  proof (cases as)
    case Nil
    then show ?thesis by simp
  next
    case (Cons b bs)
    have "msg_id a = msg_id b" using e[of a] e[of b] Cons \<open>filter (single_about u) ms = a # as\<close> by simp
    then show ?thesis using d Cons \<open>filter (single_about u) ms = a # as\<close> by simp
  qed
  then show ?thesis using Cons by simp
qed

text \<open>
  Claim C1, as amended. In every state the session reaches, by calls of
  \<open>checkUrlVisited\<close>, \<open>checkUrlsBatch\<close> and \<open>markUrlAsVisited\<close> and by answers of the
  background worker in any order, at most one query sent by \<open>checkUrlVisited\<close> is
  outstanding for a normalized URL. While such a query is outstanding, a further
  \<open>checkUrlVisited\<close> for the URL sends nothing and changes nothing: it hands back the
  promise of that query, or the cached value when the URL has been cached meanwhile.
  Nothing is said of \<open>checkUrlsBatch\<close>, which does not consult \<open>pendingChecks\<close>.
\<close>

theorem single_query_per_url:
  "outstanding_single u (run url_href evs) \<le> 1 \<and>
   (CheckUrl p (normalizeUrl url_href url) \<in> set (in_flight (run url_href evs)) \<longrightarrow>
      snd (checkUrlVisited url_href env url (run url_href evs)) = run url_href evs \<and>
      fst (checkUrlVisited url_href env url (run url_href evs)) =
        (case urlCache (run url_href evs) (normalizeUrl url_href url) of
           Some v \<Rightarrow> Immediate v
         | None \<Rightarrow> Awaits p))"
proof -
  let ?s = "run url_href evs"
  have i: "session_inv ?s" by (rule inv_run)
  have a: "outstanding_single u ?s \<le> 1"
    using i single_ids[of ?s "in_flight ?s" u]
    by (simp add: outstanding_single_def session_inv_def list_all_iff)
  have b: "pendingChecks ?s (normalizeUrl url_href url) = Some p"
    if "CheckUrl p (normalizeUrl url_href url) \<in> set (in_flight ?s)"
    using that i by (auto simp: session_inv_def list_all_iff)
  show ?thesis
    using a b by (auto simp: checkUrlVisited_def Let_def split: option.splits)
qed

text \<open>A second \<open>checkUrlVisited\<close> right after the first.\<close>

theorem single_query_per_url_witness:
  "outstanding_single ''https://a/'' (run Some [CallCheckOne SendOk ''https://a/'']) \<le> 1 \<and>
   checkUrlVisited Some SendOk ''https://a/'' (run Some [CallCheckOne SendOk ''https://a/'']) =
     (Awaits 0, run Some [CallCheckOne SendOk ''https://a/''])"
proof -
  have m: "CheckUrl 0 (normalizeUrl Some ''https://a/'') \<in>
             set (in_flight (run Some [CallCheckOne SendOk ''https://a/'']))"
    by (simp add: session_eval)
  have c: "urlCache (run Some [CallCheckOne SendOk ''https://a/'']) (normalizeUrl Some ''https://a/'') = None"
    by (simp add: session_eval)
  note t = single_query_per_url [of "''https://a/''" Some "[CallCheckOne SendOk ''https://a/'']" 0
      "''https://a/''" SendOk]
  have "fst (checkUrlVisited Some SendOk ''https://a/'' (run Some [CallCheckOne SendOk ''https://a/''])) = Awaits 0"
    using t m c by simp
  moreover have "snd (checkUrlVisited Some SendOk ''https://a/'' (run Some [CallCheckOne SendOk ''https://a/''])) =
      run Some [CallCheckOne SendOk ''https://a/'']"
    using t m by blast
  moreover have "outstanding_single ''https://a/'' (run Some [CallCheckOne SendOk ''https://a/'']) \<le> 1"
    using t by blast
  ultimately show ?thesis by (simp add: prod_eq_iff)
qed

text \<open>
  Claim C1 as stated fails on the path of \<open>checkUrlsBatch\<close>: called while the query of
  \<open>checkUrlVisited\<close> for the same URL is outstanding, it sends a second query for it.
\<close>

theorem checkMany_second_query_counterexample:
  "outstanding ''https://a/''
     (run Some [CallCheckOne SendOk ''https://a/'', CallCheckMany SendOk [''https://a/'']]) = 2 \<and>
   in_flight (run Some [CallCheckOne SendOk ''https://a/'', CallCheckMany SendOk [''https://a/'']]) =
     [CheckUrl 0 ''https://a/'', CheckUrls 1 [''https://a/''] [''https://a/'']]"
  by (simp add: session_eval)

subsection \<open>The results of \<open>checkUrlsBatch\<close>\<close>

lemma fold_cache_set_cache:
  "urlCache (foldl (\<lambda>s' entry. cache_set (fst entry) (snd entry) s') s rs) =
     urlCache s ++ map_of (rev rs)"
proof (induction rs arbitrary: s)
  case Nil
  then show ?case by simp
next
  case (Cons e rs)
  have "urlCache (cache_set (fst e) (snd e) s) ++ map_of (rev rs) =
        urlCache s ++ (map_of [e] ++ map_of (rev rs))"
    by (cases e) (simp add: session_simps map_add_def fun_eq_iff split: option.splits)
  then show ?case using Cons by simp
qed

lemma map_of_rev_graph:
  "map_of (rev (map (\<lambda>u. (u, f u)) xs)) u = (if u \<in> set xs then Some (f u) else None)"
  by (induction xs) (auto simp: map_add_def split: option.splits)

lemma reply_cache_get:
  assumes "urlCache s1 = urlCache s"
  shows "cache_get (foldl (\<lambda>s' entry. cache_set (fst entry) (snd entry) s') s1
            (onMessage_checkUrls lookup_ok st (uncachedUrls_of s unique))) u =
         (case urlCache s u of Some v \<Rightarrow> v | None \<Rightarrow>
            if u \<in> set unique then lookup_ok u \<and> checkUrlInDB st u else False)"
proof -
  have k: "u \<in> set (uncachedUrls_of s unique) \<longleftrightarrow> u \<in> set unique \<and> urlCache s u = None"
    by (auto simp: uncachedUrls_of_def)
  show ?thesis
    using k
    by (auto simp: cache_get_def fold_cache_set_cache assms onMessage_checkUrls_def
          map_of_rev_graph map_add_def split: option.splits)
qed

text \<open>
  Claim C2, as amended. A call of \<open>checkUrlsBatch\<close> asks the store about exactly the
  requested distinct URLs that have no cache entry. When there is none, it answers all
  from the cache and sends nothing. When the query is sent and the background worker
  answers it (nothing else happening to the session in between), every requested
  distinct URL is reported: a cached one with its cached value, another with what the
  store says. When the query fails (no context, a send
  that throws, or a transport error), every requested distinct URL is reported
  \<open>false\<close>, the cached ones too; the cache itself is left as it was.
\<close>

theorem checkUrlsBatch_results:
  assumes "unique = uniqueUrls_of url_href urls" and "uncached = uncachedUrls_of s unique"
    and "query = CheckUrls (next_id s) unique uncached"
  shows "set uncached = {u \<in> set unique. urlCache s u = None} \<and>
         (uncached = [] \<longrightarrow>
            checkUrlsBatch url_href env urls s = (Immediate (map (\<lambda>u. (u, cache_get s u)) unique), s)) \<and>
         (uncached \<noteq> [] \<longrightarrow>
            checkUrlsBatch url_href SendOk urls s = (Awaits (next_id s), send query (new_promise s)) \<and>
            fst (checkUrls_callback unique
                   (BatchReply (Some (onMessage_checkUrls lookup_ok st uncached)))
                   (answered query (send query (new_promise s)))) =
              map (\<lambda>u. (u, case urlCache s u of Some v \<Rightarrow> v
                              | None \<Rightarrow> lookup_ok u \<and> checkUrlInDB st u)) unique \<and>
            checkUrlsBatch url_href ContextInvalidated urls s = (Immediate (all_false unique), s) \<and>
            checkUrlsBatch url_href SendThrows urls s = (Immediate (all_false unique), s)) \<and>
         checkUrls_callback unique BatchLastError s' = (all_false unique, s')"
proof -
  have a: "set uncached = {u \<in> set unique. urlCache s u = None}"
    by (auto simp: assms(2) uncachedUrls_of_def)
  have b: "checkUrlsBatch url_href env urls s = (Immediate (map (\<lambda>u. (u, cache_get s u)) unique), s)"
    if "uncached = []"
    using that by (simp add: checkUrlsBatch_def Let_def assms(1,2) [symmetric])
  have c: "checkUrlsBatch url_href SendOk urls s = (Awaits (next_id s), send query (new_promise s))"
    "checkUrlsBatch url_href ContextInvalidated urls s = (Immediate (all_false unique), s)"
    "checkUrlsBatch url_href SendThrows urls s = (Immediate (all_false unique), s)"
    if "uncached \<noteq> []"
    using that by (simp_all add: checkUrlsBatch_def Let_def assms(1,2) [symmetric] assms(3))
  have e: "urlCache (answered query (send query (new_promise s))) = urlCache s"
    by (simp add: session_simps)
  have d: "fst (checkUrls_callback unique
                   (BatchReply (Some (onMessage_checkUrls lookup_ok st uncached)))
                   (answered query (send query (new_promise s)))) =
              map (\<lambda>u. (u, case urlCache s u of Some v \<Rightarrow> v
                              | None \<Rightarrow> lookup_ok u \<and> checkUrlInDB st u)) unique"
    by (simp add: checkUrls_callback_def Let_def assms(2) reply_cache_get[OF e] split: option.splits)
  have f: "checkUrls_callback unique BatchLastError s' = (all_false unique, s')"
    by (simp add: checkUrls_callback_def)
  show ?thesis using a b c d f by blast
qed

text \<open>A call for two distinct URLs, one of them cached, the other unknown to the store.\<close>

theorem checkUrlsBatch_results_witness:
  "checkUrlsBatch Some SendOk [''https://a/'', ''https://b/'', ''https://a/'']
     (markUrlAsVisited Some ''https://a/'' session_init) =
     (Awaits 0, send (CheckUrls 0 [''https://a/'', ''https://b/''] [''https://b/''])
                  (new_promise (markUrlAsVisited Some ''https://a/'' session_init))) \<and>
   fst (checkUrls_callback [''https://a/'', ''https://b/'']
          (BatchReply (Some (onMessage_checkUrls (\<lambda>u. True) [(''https://c/'', 7)] [''https://b/''])))
          (answered (CheckUrls 0 [''https://a/'', ''https://b/''] [''https://b/''])
             (send (CheckUrls 0 [''https://a/'', ''https://b/''] [''https://b/''])
                (new_promise (markUrlAsVisited Some ''https://a/'' session_init))))) =
     [(''https://a/'', True), (''https://b/'', False)]"
proof -
  let ?s = "markUrlAsVisited Some ''https://a/'' session_init"
  have u: "[''https://a/'', ''https://b/''] = uniqueUrls_of Some [''https://a/'', ''https://b/'', ''https://a/'']"
    by (simp add: uniqueUrls_of_def new_Set_def normalizeUrl_def)
  have n: "[''https://b/''] = uncachedUrls_of ?s [''https://a/'', ''https://b/'']"
    by (simp add: session_eval)
  have q: "CheckUrls 0 [''https://a/'', ''https://b/''] [''https://b/''] =
           CheckUrls (next_id ?s) [''https://a/'', ''https://b/''] [''https://b/'']"
    by (simp add: session_eval)
  have c: "urlCache ?s ''https://a/'' = Some True" "urlCache ?s ''https://b/'' = None"
    by (simp_all add: session_eval)
  have z: "next_id ?s = 0" by (simp add: session_eval)
  have k: "checkUrlInDB [(''https://c/'', 7)] ''https://b/'' = False"
    by (simp add: checkUrlInDB_def)
  note t = checkUrlsBatch_results [OF u n q, of SendOk "\<lambda>u. True" "[(''https://c/'', 7)]" ?s]
  show ?thesis using t by (simp add: c z k)
qed

text \<open>
  Claim C2 as stated fails for the cached URLs of a failed query: the URL cached as
  visited is reported \<open>false\<close>, on the path of a missing context and on the path of a
  transport error.
\<close>

theorem checkUrlsBatch_failure_counterexample:
  "urlCache (markUrlAsVisited Some ''https://a/'' session_init) ''https://a/'' = Some True \<and>
   fst (checkUrlsBatch Some ContextInvalidated [''https://a/'', ''https://b/'']
          (markUrlAsVisited Some ''https://a/'' session_init)) =
     Immediate [(''https://a/'', False), (''https://b/'', False)] \<and>
   fst (checkUrls_callback [''https://a/'', ''https://b/''] BatchLastError
          (answered (CheckUrls 0 [''https://a/'', ''https://b/''] [''https://b/''])
             (snd (checkUrlsBatch Some SendOk [''https://a/'', ''https://b/'']
                     (markUrlAsVisited Some ''https://a/'' session_init))))) =
     [(''https://a/'', False), (''https://b/'', False)]"
  by (simp add: session_eval)

section \<open>Proofs: scanning the links\<close>









end
